theory Spec2Isabelle
  imports Complex_Main "HOL-Library.Log_Nat" "HOL-Library.AList"
begin

section \<open>Python values, images and the printer device\<close>

text \<open>
  The values that travel through the HTTP layer and the constructor of
  \<open>WorkingPDFPrinter\<close>: \<open>None\<close>, integers and strings.
\<close>

datatype pyval = PNone | PInt int | PStr string

text \<open>
  A PIL image, as far as \<open>_print_image_working\<close> looks at it: whether
  \<open>image.mode\<close> is \<open>'RGB'\<close>, and \<open>image.size\<close>.
\<close>

record image =
  is_rgb :: bool
  img_width :: int
  img_height :: int

datatype cap = HORZRES | VERTRES

text \<open>
  The library and GDI calls made by the emission routine. \<open>Draw\<close> carries the
  rectangle \<open>(x, y, x + new_width, y + new_height)\<close> handed to \<open>dib.draw\<close>.
\<close>

datatype op =
    ImageConvert
  | CreateDC
  | CreatePrinterDC
  | StartDoc
  | StartPage
  | GetDeviceCaps cap
  | ImageDib
  | GetHandleOutput
  | Draw int int int int
  | EndPage
  | EndDoc
  | DeleteDC
  | AbortDoc

datatype exn =
    CallFailed op
  | AttributeError
  | ZeroDivisionError
  | TypeError
  | FileNotFoundError
  | Win32Error

type_synonym event = "op \<times> bool"

text \<open>
  The device is an environment: whether a call raises may depend on everything that
  was called before it. \<open>horzres\<close> and \<open>vertres\<close> are what \<open>GetDeviceCaps\<close> returns.
\<close>

record device =
  fails :: "event list \<Rightarrow> op \<Rightarrow> bool"
  horzres :: int
  vertres :: int

section \<open>Float arithmetic of the scaling computation\<close>

text \<open>
  Python's \<open>/\<close> on two ints and \<open>*\<close> on an int and a float are IEEE 754 binary64
  operations: the exact result, rounded to the nearest value with a 53-bit significand,
  ties to even. A float is modelled by the rational it denotes; the exponent range
  (overflow, subnormal numbers) is not modelled.
\<close>

definition flog2 :: "rat \<Rightarrow> int" where
  "flog2 a =
     (let (n, d) = quotient_of a; k = bitlen n - bitlen d
      in if 2 powi k \<le> a then k else k - 1)"

definition rnd :: "rat \<Rightarrow> rat" where
  "rnd q =
     (if q = 0 then 0
      else
        let a = \<bar>q\<bar>;
            e = flog2 a - 52;
            m = a / (2 powi e);
            f = \<lfloor>m\<rfloor>;
            r = m - of_int f;
            n = (if r < 1 / 2 then f
                 else if 1 / 2 < r then f + 1
                 else if even f then f else f + 1)
        in sgn q * of_int n * (2 powi e))"

definition true_div :: "int \<Rightarrow> int \<Rightarrow> rat" where
  "true_div a b = rnd (of_int a / of_int b)"

definition int_times_float :: "int \<Rightarrow> rat \<Rightarrow> rat" where
  "int_times_float a s = rnd (rnd (of_int a) * s)"

definition py_min :: "rat \<Rightarrow> rat \<Rightarrow> rat" where
  "py_min a b = (if b < a then b else a)"

definition py_int :: "rat \<Rightarrow> int" where
  "py_int x = (if 0 \<le> x then \<lfloor>x\<rfloor> else \<lceil>x\<rceil>)"

definition fit_rect :: "int \<Rightarrow> int \<Rightarrow> int \<Rightarrow> int \<Rightarrow> int \<times> int \<times> int \<times> int" where
  "fit_rect printer_width printer_height iw ih =
     (let scale = py_min (true_div printer_width iw) (true_div printer_height ih);
          new_width = py_int (int_times_float iw scale);
          new_height = py_int (int_times_float ih scale);
          x = (printer_width - new_width) div 2;
          y = (printer_height - new_height) div 2
      in (x, y, x + new_width, y + new_height))"

section \<open>WorkingPDFPrinter\<close>

text \<open>
  The fields of the object, with two observation logs added: \<open>trace\<close> records every
  call of the emission routine with its outcome, \<open>emitted\<close> records the page numbers
  with which \<open>_print_image_working\<close> was entered. \<open>printer_dc\<close> is \<open>True\<close> when the
  attribute holds a device context and \<open>False\<close> when it is \<open>None\<close>.
\<close>

record printer =
  printer_name :: pyval
  dpi :: pyval
  threads :: pyval
  converted :: int
  printed :: int
  total_pages :: int
  printer_dc :: bool
  trace :: "event list"
  emitted :: "int list"

definition dev_call :: "device \<Rightarrow> op \<Rightarrow> printer \<Rightarrow> bool \<times> printer" where
  "dev_call d c s =
     (let ok = \<not> fails d (trace s) c in (ok, s\<lparr>trace := trace s @ [(c, ok)]\<rparr>))"

fun run_calls :: "device \<Rightarrow> op list \<Rightarrow> printer \<Rightarrow> exn option \<times> printer" where
  "run_calls d [] s = (None, s)"
| "run_calls d (c # cs) s =
     (case dev_call d c s of
        (True, s') \<Rightarrow> run_calls d cs s'
      | (False, s') \<Rightarrow> (Some (CallFailed c), s'))"

text \<open>
  Sequencing of two steps of a routine that may raise: the second step runs only when
  the first did not raise.
\<close>

definition then_do ::
  "exn option \<times> printer \<Rightarrow> (printer \<Rightarrow> exn option \<times> printer) \<Rightarrow> exn option \<times> printer" where
  "then_do r f = (case r of (None, s) \<Rightarrow> f s | (Some e, s) \<Rightarrow> (Some e, s))"

text \<open>The block under \<open>if page_num == 1\<close>, which is outside the \<open>try\<close>.\<close>

definition open_session :: "device \<Rightarrow> printer \<Rightarrow> exn option \<times> printer" where
  "open_session d s =
     then_do (run_calls d [CreateDC] s)
       (\<lambda>s1. run_calls d [CreatePrinterDC, StartDoc] (s1\<lparr>printer_dc := True\<rparr>))"

text \<open>The body of the \<open>try\<close>. A method call on \<open>None\<close> raises \<open>AttributeError\<close>.\<close>

definition try_body :: "device \<Rightarrow> image \<Rightarrow> int \<Rightarrow> printer \<Rightarrow> exn option \<times> printer" where
  "try_body d img page_num s =
     (if \<not> printer_dc s then (Some AttributeError, s)
      else
        then_do (run_calls d [StartPage, GetDeviceCaps HORZRES, GetDeviceCaps VERTRES] s)
          (\<lambda>s1.
             if img_width img = 0 \<or> img_height img = 0 then (Some ZeroDivisionError, s1)
             else
               case fit_rect (horzres d) (vertres d) (img_width img) (img_height img) of
                 (x0, y0, x1, y1) \<Rightarrow>
                   then_do (run_calls d [ImageDib, GetHandleOutput, Draw x0 y0 x1 y1, EndPage] s1)
                     (\<lambda>s2.
                        if page_num = total_pages s2 then
                          then_do (run_calls d [EndDoc, DeleteDC] s2)
                            (\<lambda>s3. (None, s3\<lparr>printer_dc := False\<rparr>))
                        else (None, s2))))"

text \<open>The \<open>except\<close> handler: its own failures are swallowed, then the error is re-raised.\<close>

definition cleanup :: "device \<Rightarrow> printer \<Rightarrow> printer" where
  "cleanup d s =
     (if printer_dc s then
        (case run_calls d [AbortDoc, DeleteDC] s of
           (None, s') \<Rightarrow> s'\<lparr>printer_dc := False\<rparr>
         | (Some e, s') \<Rightarrow> s')
      else s)"

text \<open>The \<open>try\<close> statement: body and handler.\<close>

definition try_block :: "device \<Rightarrow> image \<Rightarrow> int \<Rightarrow> printer \<Rightarrow> exn option \<times> printer" where
  "try_block d img page_num s =
     (case try_body d img page_num s of
        (None, s3) \<Rightarrow> (None, s3)
      | (Some e, s3) \<Rightarrow> (Some e, cleanup d s3))"

definition print_image_working ::
  "device \<Rightarrow> image \<Rightarrow> int \<Rightarrow> printer \<Rightarrow> exn option \<times> printer" where
  "print_image_working d img page_num s0 =
     then_do (if is_rgb img then (None, s0\<lparr>emitted := emitted s0 @ [page_num]\<rparr>)
              else run_calls d [ImageConvert] (s0\<lparr>emitted := emitted s0 @ [page_num]\<rparr>))
       (\<lambda>s1. then_do (if page_num = 1 then open_session d s1 else (None, s1))
          (try_block d img page_num))"

section \<open>print_worker: the reorder buffer\<close>

record worker =
  next_page :: int
  buffer :: "(int \<times> image) list"
  prn :: printer

text \<open>
  The body of the inner loop: pop the image of \<open>next_page\<close>, call the emission routine,
  count the page as printed when it did not raise, and go on to the next page either way.
\<close>

definition emit_page :: "device \<Rightarrow> image \<Rightarrow> worker \<Rightarrow> worker" where
  "emit_page d img w =
     (case print_image_working d img (next_page w) (prn w) of
        (r, p) \<Rightarrow>
          w\<lparr>buffer := AList.delete (next_page w) (buffer w),
            prn := (if r = None then p\<lparr>printed := printed p + 1\<rparr> else p),
            next_page := next_page w + 1\<rparr>)"

text \<open>The inner loop \<open>while next_page in buffer\<close>.\<close>

function drain :: "device \<Rightarrow> worker \<Rightarrow> worker" where
  "drain d w =
     (case map_of (buffer w) (next_page w) of
        None \<Rightarrow> w
      | Some img \<Rightarrow> drain d (emit_page d img w))"
  by pat_completeness auto
termination
proof (relation "measure (\<lambda>(d, w). length (buffer w))")
  show "wf (measure (\<lambda>(d, w). length (buffer w)))"
    by simp
next
  fix d :: device and w :: worker and img
  assume hit: "map_of (buffer w) (next_page w) = Some img"
  have shrink: "map_of al k = Some v \<Longrightarrow> length (AList.delete k al) < length al"
    for al :: "(int \<times> image) list" and k v
    by (induction al) (auto simp: less_Suc_eq_le AList.length_delete_le split: if_splits)
  have "buffer (emit_page d img w) = AList.delete (next_page w) (buffer w)"
    by (simp add: emit_page_def split: prod.splits)
  with shrink [OF hit]
  show "((d, emit_page d img w), d, w) \<in> measure (\<lambda>(d, w). length (buffer w))"
    by simp
qed

text \<open>One iteration of the outer loop, for the item taken from the image queue.\<close>

definition accept :: "device \<Rightarrow> int \<times> image \<Rightarrow> worker \<Rightarrow> worker" where
  "accept d item w =
     (case item of (page_num, img) \<Rightarrow>
        drain d (w\<lparr>buffer := AList.update page_num img (buffer w)\<rparr>))"

definition print_worker :: "device \<Rightarrow> (int \<times> image) list \<Rightarrow> printer \<Rightarrow> worker" where
  "print_worker d items p =
     foldl (\<lambda>w item. accept d item w) \<lparr>next_page = 1, buffer = [], prn = p\<rparr> items"

section \<open>print_pdf: the coordinator\<close>

text \<open>
  What one call of \<open>print_pdf\<close> meets outside the object: whether the resolved path
  exists, what \<open>pdfinfo_from_path\<close> reports (\<open>None\<close> when it raises), what
  \<open>convert_from_path\<close> yields for a page (\<open>None\<close> when it raises or returns an empty list),
  and the order \<open>sched\<close> in which the conversions of the queued pages finish and are
  taken from the image queue by \<open>print_worker\<close>.
\<close>

record pdf_env =
  path_exists :: bool
  page_count :: "int option"
  convert :: "int \<Rightarrow> image option"
  sched :: "int list"

text \<open>\<open>convert_worker\<close> puts \<open>(page_num, images[0])\<close> on the image queue only when the
  conversion gave an image; a failed page is logged and puts nothing.\<close>

definition image_queue :: "pdf_env \<Rightarrow> (int \<times> image) list" where
  "image_queue env = List.map_filter (\<lambda>p. map_option (Pair p) (convert env p)) (sched env)"

text \<open>The block \<open>Make sure print job is closed\<close>.\<close>

definition close_job :: "device \<Rightarrow> printer \<Rightarrow> printer" where
  "close_job d s =
     (if printer_dc s then
        (case run_calls d [EndDoc, DeleteDC] s of (r, s') \<Rightarrow> s'\<lparr>printer_dc := False\<rparr>)
      else s)"

text \<open>
  The result is \<open>None\<close> when the call never returns: with no convert worker,
  \<open>job_queue.join()\<close> blocks for ever once a page is queued. \<open>Inl\<close> is a raised
  exception, \<open>Inr\<close> the object after a normal return.
\<close>

definition print_pdf :: "device \<Rightarrow> pdf_env \<Rightarrow> printer \<Rightarrow> (exn + printer) option" where
  "print_pdf d env s =
     (if \<not> path_exists env then Some (Inl FileNotFoundError)
      else
        case page_count env of
          None \<Rightarrow> Some (Inr s)
        | Some n \<Rightarrow>
            (let s1 = s\<lparr>total_pages := n, converted := 0, printed := 0, printer_dc := False\<rparr>
             in case threads s1 of
                  PInt t \<Rightarrow>
                    if t \<le> 0 \<and> 1 \<le> n then None
                    else
                      (let items = image_queue env;
                           w = print_worker d items (s1\<lparr>converted := int (length items)\<rparr>);
                           s2 = close_job d (prn w)
                       in if n = 0 then Some (Inl ZeroDivisionError) else Some (Inr s2))
                | PStr v \<Rightarrow> Some (Inl TypeError)
                | PNone \<Rightarrow> Some (Inl TypeError)))"


section \<open>The print server\<close>

record sys_env =
  exists_str :: "string \<Rightarrow> bool"
  exists_fd :: "int \<Rightarrow> bool"
  default_printer :: "string option"
  pdf_of :: "pyval \<Rightarrow> pdf_env"
  dev :: device

definition os_path_exists :: "sys_env \<Rightarrow> pyval \<Rightarrow> exn + bool" where
  "os_path_exists sys v =
     (case v of
        PStr p \<Rightarrow> Inr (exists_str sys p)
      | PInt n \<Rightarrow> Inr (exists_fd sys n)
      | PNone \<Rightarrow> Inl TypeError)"

definition truthy :: "pyval \<Rightarrow> bool" where
  "truthy v = (case v of PNone \<Rightarrow> False | PInt n \<Rightarrow> n \<noteq> 0 | PStr p \<Rightarrow> p \<noteq> [])"

definition dict_get :: "(string \<times> pyval) list \<Rightarrow> string \<Rightarrow> pyval \<Rightarrow> pyval" where
  "dict_get kv k dflt = (case map_of kv k of None \<Rightarrow> dflt | Some v \<Rightarrow> v)"

text \<open>The parameters of \<open>WorkingPDFPrinter.__init__\<close> after \<open>self\<close>.\<close>

definition init_params :: "string list" where
  "init_params = [''printer_name'', ''dpi'', ''threads'']"

text \<open>
  A call of the constructor with keyword arguments. A keyword that is not a parameter
  raises \<open>TypeError\<close> before the body runs; \<open>GetDefaultPrinter\<close> may raise.
\<close>

definition WorkingPDFPrinter_init :: "sys_env \<Rightarrow> (string \<times> pyval) list \<Rightarrow> exn + printer" where
  "WorkingPDFPrinter_init sys kwargs =
     (if \<exists>k \<in> set (map fst kwargs). k \<notin> set init_params then Inl TypeError
      else
        let pn = dict_get kwargs ''printer_name'' PNone;
            dp = dict_get kwargs ''dpi'' (PInt 300);
            th = dict_get kwargs ''threads'' (PInt 4)
        in case (if truthy pn then Some pn else map_option PStr (default_printer sys)) of
             None \<Rightarrow> Inl Win32Error
           | Some name \<Rightarrow>
               Inr \<lparr>printer_name = name, dpi = dp, threads = th, converted = 0, printed = 0,
                    total_pages = 0, printer_dc = False, trace = [], emitted = []\<rparr>)"

datatype request = BadJson | Json "(string \<times> pyval) list option"

text \<open>
  What a handler gives back: the HTTP status, and the outcome of the call of
  \<open>print_pdf\<close> when the handler got as far as making it.
\<close>

record reply =
  status :: nat
  printing :: "(exn + printer) option"

text \<open>The handler of \<open>POST /print\<close>; \<open>None\<close> when it never returns.\<close>

definition route_print :: "sys_env \<Rightarrow> request \<Rightarrow> reply option" where
  "route_print sys req =
     (case req of
        BadJson \<Rightarrow> Some \<lparr>status = 500, printing = None\<rparr>
      | Json None \<Rightarrow> Some \<lparr>status = 400, printing = None\<rparr>
      | Json (Some data) \<Rightarrow>
          (case (if data = [] then None else map_of data ''file_path'') of
             None \<Rightarrow> Some \<lparr>status = 400, printing = None\<rparr>
           | Some file_path \<Rightarrow>
               (case os_path_exists sys file_path of
                  Inl e \<Rightarrow> Some \<lparr>status = 500, printing = None\<rparr>
                | Inr False \<Rightarrow> Some \<lparr>status = 404, printing = None\<rparr>
                | Inr True \<Rightarrow>
                    (case WorkingPDFPrinter_init sys
                            [(''printer_name'', dict_get data ''printer'' PNone),
                             (''dpi'', dict_get data ''dpi'' (PInt 300)),
                             (''threads'', dict_get data ''threads'' (PInt 4)),
                             (''margin_mm'', dict_get data ''margin_mm'' (PInt 0))] of
                       Inl e \<Rightarrow> Some \<lparr>status = 500, printing = None\<rparr>
                     | Inr pdf_printer \<Rightarrow>
                         (case print_pdf (dev sys) (pdf_of sys file_path) pdf_printer of
                            None \<Rightarrow> None
                          | Some (Inl e) \<Rightarrow> Some \<lparr>status = 500, printing = Some (Inl e)\<rparr>
                          | Some (Inr s) \<Rightarrow> Some \<lparr>status = 200, printing = Some (Inr s)\<rparr>)))))"

datatype job_status = Queued | Printing | Completed | Failed

text \<open>The constructor call made by the background thread of \<open>POST /print-async\<close>.\<close>

definition async_construct :: "sys_env \<Rightarrow> (string \<times> pyval) list \<Rightarrow> exn + printer" where
  "async_construct sys data =
     WorkingPDFPrinter_init sys
       [(''printer_name'', dict_get data ''printer'' PNone),
        (''dpi'', dict_get data ''dpi'' (PInt 300)),
        (''threads'', dict_get data ''threads'' (PInt 4))]"

text \<open>
  The status the background thread leaves in \<open>active_jobs\<close>: \<open>completed\<close> when
  \<open>print_pdf\<close> returns, \<open>failed\<close> when the constructor or \<open>print_pdf\<close> raises, and
  \<open>printing\<close> for ever when \<open>print_pdf\<close> does not return.
\<close>

definition async_job :: "sys_env \<Rightarrow> (string \<times> pyval) list \<Rightarrow> pyval \<Rightarrow> job_status" where
  "async_job sys data file_path =
     (case async_construct sys data of
        Inl e \<Rightarrow> Failed
      | Inr pdf_printer \<Rightarrow>
          (case print_pdf (dev sys) (pdf_of sys file_path) pdf_printer of
             None \<Rightarrow> Printing
           | Some (Inl e) \<Rightarrow> Failed
           | Some (Inr s) \<Rightarrow> Completed))"

text \<open>The handler of \<open>POST /print-async\<close>: the HTTP status and, when a job was
  queued, the status its thread ends in.\<close>

definition route_print_async :: "sys_env \<Rightarrow> request \<Rightarrow> nat \<times> job_status option" where
  "route_print_async sys req =
     (case req of
        BadJson \<Rightarrow> (500, None)
      | Json None \<Rightarrow> (400, None)
      | Json (Some data) \<Rightarrow>
          (case (if data = [] then None else map_of data ''file_path'') of
             None \<Rightarrow> (400, None)
           | Some file_path \<Rightarrow>
               (case os_path_exists sys file_path of
                  Inl e \<Rightarrow> (500, None)
                | Inr False \<Rightarrow> (404, None)
                | Inr True \<Rightarrow> (200, Some (async_job sys data file_path)))))"

section \<open>Auxiliary predicates and sample inputs\<close>

text \<open>What the device calls leave alone: every field but \<open>trace\<close> and \<open>printer_dc\<close>.\<close>

definition frame :: "printer \<Rightarrow> printer \<Rightarrow> bool" where
  "frame s s' \<longleftrightarrow>
     emitted s' = emitted s \<and> printed s' = printed s \<and> total_pages s' = total_pages s \<and>
     threads s' = threads s \<and> converted s' = converted s"

text \<open>The effect of the inner loop on the worker.\<close>

definition drained :: "worker \<Rightarrow> worker \<Rightarrow> bool" where
  "drained w w' \<longleftrightarrow>
     next_page w \<le> next_page w' \<and>
     emitted (prn w') = emitted (prn w) @ [next_page w .. next_page w' - 1] \<and>
     map_of (buffer w') (next_page w') = None \<and>
     fst ` set (buffer w') = fst ` set (buffer w) - {next_page w ..< next_page w'} \<and>
     {next_page w ..< next_page w'} \<subseteq> fst ` set (buffer w)"

text \<open>
  The state of the reorder buffer after the pages \<open>S\<close> have arrived, for a worker that was
  started on the object \<open>p\<close>.
\<close>

definition buf_inv :: "printer \<Rightarrow> int set \<Rightarrow> worker \<Rightarrow> bool" where
  "buf_inv p S w \<longleftrightarrow>
     1 \<le> next_page w \<and>
     map_of (buffer w) (next_page w) = None \<and>
     emitted (prn w) = emitted p @ [1 .. next_page w - 1] \<and>
     fst ` set (buffer w) \<union> {1 ..< next_page w} = S"

text \<open>
  The calls a sequence of device calls makes from the history \<open>tr\<close>, and the exception
  it ends in, as functions of the history alone.
\<close>

fun calls_made :: "device \<Rightarrow> event list \<Rightarrow> op list \<Rightarrow> event list" where
  "calls_made d tr [] = []"
| "calls_made d tr (c # cs) =
     (if fails d tr c then [(c, False)] else (c, True) # calls_made d (tr @ [(c, True)]) cs)"

fun first_failure :: "device \<Rightarrow> event list \<Rightarrow> op list \<Rightarrow> exn option" where
  "first_failure d tr [] = None"
| "first_failure d tr (c # cs) =
     (if fails d tr c then Some (CallFailed c) else first_failure d (tr @ [(c, True)]) cs)"





text \<open>The events a run added to the history of the object \<open>s\<close>.\<close>

definition new_events :: "printer \<Rightarrow> printer \<Rightarrow> event list" where
  "new_events s s' = drop (length (trace s)) (trace s')"

text \<open>A device on which no call fails, an A4 page at 300 dpi, and a fresh object.\<close>

definition dev_ok :: device where
  "dev_ok = \<lparr>fails = (\<lambda>tr c. False), horzres = 4961, vertres = 7016\<rparr>"

definition page_img :: image where
  "page_img = \<lparr>is_rgb = True, img_width = 2480, img_height = 3508\<rparr>"

definition fresh_printer :: printer where
  "fresh_printer =
     \<lparr>printer_name = PStr ''best'', dpi = PInt 300, threads = PInt 4, converted = 0,
      printed = 0, total_pages = 0, printer_dc = False, trace = [], emitted = []\<rparr>"



text \<open>
  Sample inputs: a device on which \<open>CreateDC\<close> always fails, a one-page document, a
  server in front of them, and a document of \<open>n\<close> pages whose page \<open>k\<close> does not convert.
\<close>

definition dev_nodc :: device where
  "dev_nodc = \<lparr>fails = (\<lambda>tr c. c = CreateDC), horzres = 4961, vertres = 7016\<rparr>"

definition one_page_env :: pdf_env where
  "one_page_env =
     \<lparr>path_exists = True, page_count = Some 1, convert = (\<lambda>pg. Some page_img), sched = [1]\<rparr>"

definition sys_nodc :: sys_env where
  "sys_nodc =
     \<lparr>exists_str = (\<lambda>p. True), exists_fd = (\<lambda>n. False), default_printer = Some ''best'',
      pdf_of = (\<lambda>v. one_page_env), dev = dev_nodc\<rparr>"


text \<open>
  The tail of a history after a failure inside the \<open>try\<close>: \<open>AbortDoc\<close> was called; when it
  did not raise, \<open>DeleteDC\<close> was called; the handle is cleared when both succeeded.
\<close>

definition ends_with :: "'a list \<Rightarrow> 'a list \<Rightarrow> bool" where
  "ends_with xs ys \<longleftrightarrow> length ys \<le> length xs \<and> drop (length xs - length ys) xs = ys"








text \<open>The relative error of one rounding to a 53-bit significand.\<close>

definition ulp_half :: rat where
  "ulp_half = 1 / 2 ^ 53"

section \<open>The emission routine changes only the device state\<close>

declare drain.simps [simp del]

lemma frame_refl: "frame s s"
  by (simp add: frame_def)

lemma frame_trans: "frame s s1 \<Longrightarrow> frame s1 s2 \<Longrightarrow> frame s s2"
  by (simp add: frame_def)

lemma frame_dc: "frame s s1 \<Longrightarrow> frame s (s1\<lparr>printer_dc := b\<rparr>)"
  by (simp add: frame_def)

lemma frame_dev_call: "frame s (snd (dev_call d c s))"
  by (simp add: dev_call_def Let_def frame_def)

lemma frame_run_calls: "frame s (snd (run_calls d cs s))"
proof (induction cs arbitrary: s)
  case Nil
  show ?case by (simp add: frame_refl)
next
  case (Cons c cs)
  obtain ok s' where dc: "dev_call d c s = (ok, s')"
    by (cases "dev_call d c s")
  with frame_dev_call [of s d c] have "frame s s'"
    by simp
  with dc Cons.IH [of s'] show ?case
    by (cases ok) (auto intro: frame_trans)
qed

declare run_calls.simps [simp del]

lemma frame_then_do:
  assumes "frame s (snd r)" and "\<And>s1. frame s s1 \<Longrightarrow> frame s (snd (f s1))"
  shows "frame s (snd (then_do r f))"
  using assms by (cases r) (auto simp: then_do_def split: option.splits)

lemma frame_run_calls': "frame s s1 \<Longrightarrow> frame s (snd (run_calls d cs s1))"
  using frame_run_calls frame_trans by blast

lemma frame_open_session: "frame s (snd (open_session d s))"
  unfolding open_session_def
  by (intro frame_then_do frame_run_calls frame_run_calls' frame_dc)

lemma frame_try_body: "frame s (snd (try_body d img pg s))"
  unfolding try_body_def
  by (auto split: prod.splits intro!: frame_then_do frame_run_calls frame_run_calls' frame_dc frame_refl)

lemma frame_cleanup: "frame s (cleanup d s)"
  using frame_run_calls [of s d "[AbortDoc, DeleteDC]"]
  by (auto simp: cleanup_def frame_refl split: prod.splits option.splits intro: frame_dc)

lemma frame_try_block: "frame s (snd (try_block d img pg s))"
  using frame_try_body [of s d img pg] frame_cleanup [of "snd (try_body d img pg s)" d]
  by (auto simp: try_block_def split: prod.splits option.splits intro: frame_trans)

lemma frame_try_block': "frame s s1 \<Longrightarrow> frame s (snd (try_block d img pg s1))"
  using frame_try_block frame_trans by blast

lemma frame_open_session': "frame s s1 \<Longrightarrow> frame s (snd (open_session d s1))"
  using frame_open_session frame_trans by blast

lemma frame_print_image_working:
  "frame (s\<lparr>emitted := emitted s @ [pg]\<rparr>) (snd (print_image_working d img pg s))"
  unfolding print_image_working_def
  by (auto intro!: frame_then_do frame_run_calls frame_try_block' frame_open_session' frame_refl)

lemma emitted_print_image_working:
  "emitted (snd (print_image_working d img pg s)) = emitted s @ [pg]"
  using frame_print_image_working [of s pg d img] by (simp add: frame_def)

lemma next_page_emit_page: "next_page (emit_page d img w) = next_page w + 1"
  by (simp add: emit_page_def split: prod.splits)

lemma buffer_emit_page: "buffer (emit_page d img w) = AList.delete (next_page w) (buffer w)"
  by (simp add: emit_page_def split: prod.splits)

lemma emitted_emit_page: "emitted (prn (emit_page d img w)) = emitted (prn w) @ [next_page w]"
  using emitted_print_image_working [of d img "next_page w" "prn w"]
  by (auto simp: emit_page_def split: prod.splits)

lemma drain_miss: "map_of (buffer w) (next_page w) = None \<Longrightarrow> drain d w = w"
  by (simp add: drain.simps)

lemma drain_hit:
  "map_of (buffer w) (next_page w) = Some img \<Longrightarrow> drain d w = drain d (emit_page d img w)"
  by (subst drain.simps) simp

lemma keys_delete: "fst ` set (AList.delete k al) = fst ` set al - {k}"
  by (induction al) auto

lemma drained_drain: "drained w (drain d w)"
proof (induction d w rule: drain.induct)
  case (1 d w)
  show ?case
  proof (cases "map_of (buffer w) (next_page w)")
    case None
    then show ?thesis
      by (simp add: drain_miss drained_def)
  next
    case (Some img)
    let ?w1 = "emit_page d img w" and ?n = "next_page w"
    let ?n' = "next_page (drain d ?w1)"
    from Some have eq: "drain d w = drain d ?w1"
      by (rule drain_hit)
    from "1.IH" [OF Some] have ih: "drained ?w1 (drain d ?w1)" .
    from Some have key: "?n \<in> fst ` set (buffer w)"
      by (metis map_of_eq_None_iff option.distinct(1))
    from ih have le: "?n + 1 \<le> ?n'"
      by (simp add: drained_def next_page_emit_page)
    then have upto: "[?n .. ?n' - 1] = ?n # [?n + 1 .. ?n' - 1]"
      by (simp add: upto_rec1)
    from le have ivl: "{?n ..< ?n'} = insert ?n {?n + 1 ..< ?n'}"
      by auto
    from ih have "emitted (prn (drain d ?w1)) = emitted (prn w) @ [?n .. ?n' - 1]"
      by (simp add: drained_def next_page_emit_page emitted_emit_page upto)
    moreover from ih have "map_of (buffer (drain d ?w1)) ?n' = None"
      by (simp add: drained_def)
    moreover from ih have "fst ` set (buffer (drain d ?w1)) = fst ` set (buffer w) - {?n ..< ?n'}"
      by (auto simp: drained_def next_page_emit_page buffer_emit_page keys_delete ivl)
    moreover from ih key have "{?n ..< ?n'} \<subseteq> fst ` set (buffer w)"
      by (auto simp: drained_def next_page_emit_page buffer_emit_page keys_delete ivl)
    ultimately show ?thesis
      using le by (simp add: eq drained_def)
  qed
qed

lemma buf_inv_accept:
  assumes "buf_inv p S w"
  shows "buf_inv p (insert pg S) (accept d (pg, img) w)"
proof -
  let ?w1 = "w\<lparr>buffer := AList.update pg img (buffer w)\<rparr>"
  let ?w' = "drain d ?w1"
  let ?n = "next_page w" and ?n' = "next_page ?w'"
  have dr: "drained ?w1 ?w'"
    by (rule drained_drain)
  have keys1: "fst ` set (buffer ?w1) = insert pg (fst ` set (buffer w))"
    by (simp add: AList.dom_update)
  from dr have le: "?n \<le> ?n'"
    by (simp add: drained_def)
  from assms have one: "1 \<le> ?n"
    by (simp add: buf_inv_def)
  have "[1 .. ?n' - 1] = [1 .. ?n - 1] @ [?n .. ?n' - 1]"
  proof (cases "?n = 1")
    case True
    then show ?thesis by simp
  next
    case False
    with one le have "1 \<le> ?n - 1" and "?n - 1 \<le> ?n' - 1"
      by simp_all
    from upto_split2 [OF this] show ?thesis by simp
  qed
  with dr assms have "emitted (prn ?w') = emitted p @ [1 .. ?n' - 1]"
    by (simp add: drained_def buf_inv_def)
  moreover from dr have "map_of (buffer ?w') ?n' = None"
    by (simp add: drained_def)
  moreover have "fst ` set (buffer ?w') \<union> {1 ..< ?n'} = insert pg S"
  proof -
    from dr keys1 have a: "fst ` set (buffer ?w') = insert pg (fst ` set (buffer w)) - {?n ..< ?n'}"
      and b: "{?n ..< ?n'} \<subseteq> insert pg (fst ` set (buffer w))"
      by (simp_all add: drained_def)
    from one le have c: "{1 ..< ?n'} = {1 ..< ?n} \<union> {?n ..< ?n'}"
      by auto
    from assms have d: "fst ` set (buffer w) \<union> {1 ..< ?n} = S"
      by (simp add: buf_inv_def)
    from a b c d show ?thesis
      by blast
  qed
  ultimately show ?thesis
    using one le by (simp add: accept_def buf_inv_def)
qed

lemma buf_inv_foldl:
  "buf_inv p S w \<Longrightarrow>
   buf_inv p (S \<union> fst ` set items) (foldl (\<lambda>w item. accept d item w) w items)"
proof (induction items arbitrary: S w)
  case Nil
  then show ?case by simp
next
  case (Cons item items)
  obtain pg img where item: "item = (pg, img)"
    by (cases item)
  from Cons.prems have "buf_inv p (insert pg S) (accept d (pg, img) w)"
    by (rule buf_inv_accept)
  from Cons.IH [OF this]
  have "buf_inv p (insert pg S \<union> fst ` set items) (foldl (\<lambda>w item. accept d item w) w (item # items))"
    by (simp add: item)
  moreover have "insert pg S \<union> fst ` set items = S \<union> fst ` set (item # items)"
    by (auto simp: item)
  ultimately show ?case
    by (simp only:)
qed

lemma buf_inv_print_worker: "buf_inv p (fst ` set items) (print_worker d items p)"
proof -
  have "buf_inv p {} \<lparr>next_page = 1, buffer = [], prn = p\<rparr>"
    by (simp add: buf_inv_def)
  from buf_inv_foldl [OF this, of items d] show ?thesis
    by (simp add: print_worker_def)
qed

lemma print_worker_all_pages:
  assumes "fst ` set items = {1 .. n}"
  shows "emitted (prn (print_worker d items p)) = emitted p @ [1 .. n]"
proof -
  let ?w = "print_worker d items p"
  have inv: "buf_inv p {1 .. n} ?w"
    using buf_inv_print_worker [of p items d] assms by simp
  then have one: "1 \<le> next_page ?w"
    and miss: "next_page ?w \<notin> fst ` set (buffer ?w)"
    and cover: "fst ` set (buffer ?w) \<union> {1 ..< next_page ?w} = {1 .. n}"
    by (simp_all add: buf_inv_def map_of_eq_None_iff)
  have "[1 .. next_page ?w - 1] = [1 .. n]"
  proof (cases "0 \<le> n")
    case True
    have "\<not> next_page ?w \<le> n"
    proof
      assume "next_page ?w \<le> n"
      with one have "next_page ?w \<in> {1 .. n}" by simp
      with cover miss show False by auto
    qed
    moreover have "\<not> n + 1 < next_page ?w"
    proof
      assume "n + 1 < next_page ?w"
      with True have "n + 1 \<in> {1 ..< next_page ?w}" by simp
      with cover have "n + 1 \<in> {1 .. n}" by blast
      then show False by simp
    qed
    ultimately have "next_page ?w = n + 1" by linarith
    then show ?thesis by simp
  next
    case False
    with cover one have "next_page ?w = 1"
      by (cases "next_page ?w = 1") auto
    with False show ?thesis by simp
  qed
  with inv show ?thesis
    by (simp add: buf_inv_def)
qed

lemma accept_stale:
  assumes inv: "buf_inv p S w"
    and dup: "pg < next_page w \<or> pg \<in> fst ` set (buffer w)"
  shows "accept d (pg, img) w = w\<lparr>buffer := AList.update pg img (buffer w)\<rparr>"
proof -
  from inv have miss: "map_of (buffer w) (next_page w) = None"
    by (simp add: buf_inv_def)
  then have "next_page w \<notin> fst ` set (buffer w)"
    by (simp add: map_of_eq_None_iff)
  with dup have "pg \<noteq> next_page w"
    by auto
  with miss have "map_of (AList.update pg img (buffer w)) (next_page w) = None"
    by (simp add: AList.update_conv')
  then show ?thesis
    by (simp add: accept_def drain_miss)
qed






lemma print_worker_stalls:
  assumes first: "1 \<le> k" and gap: "k \<notin> fst ` set items"
    and before: "{1 ..< k} \<subseteq> fst ` set items"
  shows "next_page (print_worker d items p) = k"
    and "emitted (prn (print_worker d items p)) = emitted p @ [1 .. k - 1]"
proof -
  let ?w = "print_worker d items p"
  have inv: "buf_inv p (fst ` set items) ?w"
    by (rule buf_inv_print_worker)
  then have one: "1 \<le> next_page ?w"
    and miss: "next_page ?w \<notin> fst ` set (buffer ?w)"
    and cover: "fst ` set (buffer ?w) \<union> {1 ..< next_page ?w} = fst ` set items"
    by (simp_all add: buf_inv_def map_of_eq_None_iff)
  have "\<not> next_page ?w < k"
  proof
    assume "next_page ?w < k"
    with one have "next_page ?w \<in> {1 ..< k}" by simp
    with before have "next_page ?w \<in> fst ` set items" by blast
    with cover miss show False by auto
  qed
  moreover have "\<not> k < next_page ?w"
  proof
    assume "k < next_page ?w"
    with first have "k \<in> {1 ..< next_page ?w}" by simp
    with cover gap show False by blast
  qed
  ultimately show "next_page ?w = k" by linarith
  with inv show "emitted (prn ?w) = emitted p @ [1 .. k - 1]"
    by (simp add: buf_inv_def)
qed

section \<open>The calls of the emission routine\<close>

lemma run_calls_eq:
  "run_calls d cs s = (first_failure d (trace s) cs, s\<lparr>trace := trace s @ calls_made d (trace s) cs\<rparr>)"
proof (induction cs arbitrary: s)
  case Nil
  show ?case by (simp add: run_calls.simps)
next
  case (Cons c cs)
  show ?case
    by (simp add: run_calls.simps dev_call_def Let_def Cons.IH)
qed

lemma first_failure_nofail: "\<forall>tr c. \<not> fails d tr c \<Longrightarrow> first_failure d tr cs = None"
  by (induction cs arbitrary: tr) simp_all

lemma calls_made_nofail:
  "\<forall>tr c. \<not> fails d tr c \<Longrightarrow> calls_made d tr cs = map (\<lambda>c. (c, True)) cs"
  by (induction cs arbitrary: tr) simp_all

lemma run_calls_nofail:
  "\<forall>tr c. \<not> fails d tr c \<Longrightarrow>
   run_calls d cs s = (None, s\<lparr>trace := trace s @ map (\<lambda>c. (c, True)) cs\<rparr>)"
  by (simp add: run_calls_eq first_failure_nofail calls_made_nofail)



section \<open>Invariants of the worker and the coordinator\<close>


























section \<open>Cleanup after a failure and the life of a session\<close>

lemma ends_with_append: "ends_with (xs @ ys) ys"
  by (simp add: ends_with_def)









declare calls_made.simps [simp del] first_failure.simps [simp del]





























section \<open>The constructor and its keywords\<close>

lemma margin_rejected:
  "WorkingPDFPrinter_init sys
     [(''printer_name'', a), (''dpi'', b), (''threads'', c), (''margin_mm'', e)] = Inl TypeError"
  by (simp add: WorkingPDFPrinter_init_def init_params_def)

lemma async_accepted:
  "WorkingPDFPrinter_init sys [(''printer_name'', a), (''dpi'', b), (''threads'', c)] \<noteq> Inl TypeError"
  by (simp add: WorkingPDFPrinter_init_def init_params_def Let_def split: option.splits)

section \<open>Rounding error of the scaling computation\<close>

lemma flog2_le:
  assumes "0 < a"
  shows "2 powi (flog2 a) \<le> a"
proof -
  obtain n d where nd: "quotient_of a = (n, d)"
    by (cases "quotient_of a")
  then have d: "0 < d" and a: "a = of_int n / of_int d"
    using quotient_of_denom_pos [OF nd] quotient_of_div [OF nd] by simp_all
  from assms a d have n: "0 < n"
    by (simp add: zero_less_divide_iff)
  let ?k = "bitlen n - bitlen d"
  show ?thesis
  proof (cases "2 powi ?k \<le> a")
    case True
    then show ?thesis
      by (simp add: flog2_def nd)
  next
    case False
    from bitlen_bounds [OF n] have lo: "(2 :: int) ^ nat (bitlen n - 1) \<le> n"
      by simp
    from bitlen_bounds [OF d] have hi: "d < (2 :: int) ^ nat (bitlen d)"
      by simp
    from n have bn: "1 \<le> bitlen n"
      by (simp add: bitlen_alt_def)
    have bd: "0 \<le> bitlen d"
      by (rule bitlen_nonneg)
    from lo have lo': "(2 :: rat) ^ nat (bitlen n - 1) \<le> of_int n"
      by (metis of_int_le_iff of_int_numeral of_int_power)
    from hi have hi': "of_int d \<le> (2 :: rat) ^ nat (bitlen d)"
      by (metis less_imp_le of_int_le_iff of_int_numeral of_int_power)
    have "(2 :: rat) powi (?k - 1) = 2 powi (bitlen n - 1) / 2 powi (bitlen d)"
      by (simp add: power_int_diff)
    also have "\<dots> = 2 ^ nat (bitlen n - 1) / 2 ^ nat (bitlen d)"
      using bn bd by (simp add: power_int_def)
    also have "\<dots> \<le> of_int n / of_int d"
      using lo' hi' d n by (intro frac_le) simp_all
    finally have "2 powi (?k - 1) \<le> a"
      by (simp add: a)
    with False show ?thesis
      by (simp add: flog2_def nd)
  qed
qed

lemma rnd_error:
  shows "\<bar>rnd q - q\<bar> \<le> \<bar>q\<bar> * ulp_half"
proof (cases "q = 0")
  case True
  then show ?thesis by (simp add: rnd_def)
next
  case False
  define a where "a = \<bar>q\<bar>"
  define e where "e = flog2 a - 52"
  define m where "m = a / (2 powi e)"
  define f where "f = \<lfloor>m\<rfloor>"
  define r where "r = m - of_int f"
  define n where "n = (if r < 1 / 2 then f else if 1 / 2 < r then f + 1
                       else if even f then f else f + 1)"
  from False have apos: "0 < a"
    by (simp add: a_def)
  have p: "(0 :: rat) < 2 powi e"
    by simp
  have rq: "rnd q = sgn q * of_int n * (2 powi e)"
    using False by (simp add: rnd_def Let_def a_def e_def m_def f_def r_def n_def)
  have r01: "0 \<le> r" "r < 1"
    unfolding r_def f_def by linarith+
  have nm: "\<bar>of_int n - m\<bar> \<le> 1 / 2"
    using r01 by (auto simp: n_def r_def)
  have "m * (2 powi e) = a"
    using p by (simp add: m_def)
  then have "sgn q * (m * (2 powi e)) = q"
    by (simp add: a_def sgn_mult_abs)
  then have q: "q = sgn q * m * (2 powi e)"
    by (simp add: mult.assoc)
  have "rnd q - q = sgn q * (of_int n - m) * (2 powi e)"
    by (subst (2) q) (simp add: rq algebra_simps)
  then have "\<bar>rnd q - q\<bar> = \<bar>of_int n - m\<bar> * (2 powi e)"
    using False p by (simp add: abs_mult abs_sgn_eq)
  also have "\<dots> \<le> 1 / 2 * (2 powi e)"
    using nm p by (intro mult_right_mono) simp_all
  also have "\<dots> = 2 powi (flog2 a) * ulp_half"
  proof -
    have "(2 :: rat) powi (flog2 a) = 2 powi (e + 52)"
      by (simp add: e_def)
    also have "\<dots> = 2 powi e * 2 ^ 52"
      by (simp add: power_int_add)
    finally show ?thesis
      by (simp add: ulp_half_def)
  qed
  also have "\<dots> \<le> a * ulp_half"
    using flog2_le [OF apos] by (intro mult_right_mono) (simp_all add: ulp_half_def)
  finally show ?thesis
    by (simp add: a_def)
qed

lemma rnd_bounds:
  assumes "0 < q"
  shows "q * (1 - ulp_half) \<le> rnd q" and "rnd q \<le> q * (1 + ulp_half)"
  using rnd_error [of q] assms by (simp_all add: algebra_simps abs_le_iff)

lemma ulp_half_bounds: "0 < ulp_half" "ulp_half < 1"
  by (simp_all add: ulp_half_def)

lemma rnd_pos: "0 < q \<Longrightarrow> 0 < rnd q"
proof -
  assume q: "0 < q"
  then have "0 < q * (1 - ulp_half)"
    using ulp_half_bounds by simp
  also have "\<dots> \<le> rnd q"
    using q by (rule rnd_bounds)
  finally show ?thesis .
qed

lemma int_times_float_bounds:
  assumes w: "0 < w" and s: "0 < s"
  shows "0 < int_times_float w s"
    and "int_times_float w s \<le> of_int w * s * (1 + ulp_half)\<^sup>2"
    and "of_int w * s * (1 - ulp_half)\<^sup>2 \<le> int_times_float w s"
proof -
  let ?u = ulp_half
  let ?rw = "rnd (of_int w)"
  from w have wq: "(0 :: rat) < of_int w"
    by simp
  have rw: "0 < ?rw" "?rw \<le> of_int w * (1 + ?u)" "of_int w * (1 - ?u) \<le> ?rw"
    using rnd_pos [OF wq] rnd_bounds [OF wq] by simp_all
  from rw(1) s have pos: "0 < ?rw * s"
    by simp
  show "0 < int_times_float w s"
    unfolding int_times_float_def using pos by (rule rnd_pos)
  have "int_times_float w s \<le> ?rw * s * (1 + ?u)"
    unfolding int_times_float_def using pos by (rule rnd_bounds)
  also have "\<dots> \<le> (of_int w * (1 + ?u)) * s * (1 + ?u)"
    using rw(2) s ulp_half_bounds by (intro mult_right_mono) simp_all
  also have "\<dots> = of_int w * s * (1 + ?u)\<^sup>2"
    by (simp add: power2_eq_square)
  finally show "int_times_float w s \<le> of_int w * s * (1 + ?u)\<^sup>2" .
  have "of_int w * s * (1 - ?u)\<^sup>2 = (of_int w * (1 - ?u)) * s * (1 - ?u)"
    by (simp add: power2_eq_square)
  also have "\<dots> \<le> ?rw * s * (1 - ?u)"
    using rw(3) s ulp_half_bounds by (intro mult_right_mono) simp_all
  also have "\<dots> \<le> int_times_float w s"
    unfolding int_times_float_def using pos by (rule rnd_bounds)
  finally show "of_int w * s * (1 - ?u)\<^sup>2 \<le> int_times_float w s" .
qed

lemma true_div_bounds:
  assumes "0 < a" "0 < b"
  shows "0 < true_div a b"
    and "of_int b * true_div a b \<le> of_int a * (1 + ulp_half)"
    and "of_int a * (1 - ulp_half) \<le> of_int b * true_div a b"
proof -
  let ?q = "(of_int a / of_int b) :: rat"
  from assms have q: "0 < ?q" and b: "(0 :: rat) < of_int b"
    by simp_all
  show "0 < true_div a b"
    unfolding true_div_def using q by (rule rnd_pos)
  have "of_int b * true_div a b \<le> of_int b * (?q * (1 + ulp_half))"
    unfolding true_div_def using b rnd_bounds(2) [OF q] by (intro mult_left_mono) simp_all
  also have "\<dots> = of_int a * (1 + ulp_half)"
    using b by simp
  finally show "of_int b * true_div a b \<le> of_int a * (1 + ulp_half)" .
  have "of_int a * (1 - ulp_half) = of_int b * (?q * (1 - ulp_half))"
    using b by simp
  also have "\<dots> \<le> of_int b * true_div a b"
    unfolding true_div_def using b rnd_bounds(1) [OF q] by (intro mult_left_mono) simp_all
  finally show "of_int a * (1 - ulp_half) \<le> of_int b * true_div a b" .
qed

lemma cube_up: "(1 + ulp_half) ^ 3 \<le> 1 + 1 / 2 ^ 51"
  by (simp add: ulp_half_def power3_eq_cube)

lemma cube_down: "1 - 1 / 2 ^ 51 \<le> (1 - ulp_half) ^ 3"
  by (simp add: ulp_half_def power3_eq_cube)

lemma small_part:
  assumes "0 < (W :: int)" "W < 2 ^ 31"
  shows "(of_int W :: rat) * (1 / 2 ^ 51) < 1"
proof -
  from assms(2) have "(of_int W :: rat) < 2 ^ 31"
    by (metis of_int_less_iff of_int_numeral of_int_power)
  then have "(of_int W :: rat) * (1 / 2 ^ 51) < 2 ^ 31 * (1 / 2 ^ 51)"
    by (intro mult_strict_right_mono) simp_all
  also have "\<dots> < 1"
    by simp
  finally show ?thesis .
qed

lemma scaled_upper:
  assumes w: "0 < w" and W: "0 < W" "W < 2 ^ 31" and s: "0 < s" "s \<le> true_div W w"
  shows "py_int (int_times_float w s) \<le> W"
proof -
  let ?u = ulp_half
  from w have wq: "(0 :: rat) < of_int w"
    by simp
  have "of_int w * s \<le> of_int w * true_div W w"
    using s(2) wq by (intro mult_left_mono) simp_all
  also have "\<dots> \<le> of_int W * (1 + ?u)"
    using W(1) w by (rule true_div_bounds)
  finally have ws: "of_int w * s \<le> of_int W * (1 + ?u)" .
  have "int_times_float w s \<le> of_int w * s * (1 + ?u)\<^sup>2"
    using w s(1) by (rule int_times_float_bounds)
  also have "\<dots> \<le> (of_int W * (1 + ?u)) * (1 + ?u)\<^sup>2"
    using ws by (intro mult_right_mono) simp_all
  also have "\<dots> = of_int W * (1 + ?u) ^ 3"
    by (simp add: power2_eq_square power3_eq_cube)
  also have "\<dots> \<le> of_int W * (1 + 1 / 2 ^ 51)"
    using W(1) cube_up by (intro mult_left_mono) simp_all
  also have "\<dots> = of_int W + of_int W * (1 / 2 ^ 51)"
    by (simp add: algebra_simps)
  also have "\<dots> < of_int W + 1"
    using small_part [OF W] by simp
  finally have "int_times_float w s < of_int (W + 1)"
    by simp
  then have "\<lfloor>int_times_float w s\<rfloor> < W + 1"
    by (simp only: floor_less_iff)
  moreover have "0 < int_times_float w s"
    using w s(1) by (rule int_times_float_bounds)
  ultimately show ?thesis
    by (simp add: py_int_def)
qed

lemma scaled_lower:
  assumes w: "0 < w" and W: "0 < W" "W < 2 ^ 31"
  shows "W - 1 \<le> py_int (int_times_float w (true_div W w))"
proof -
  let ?u = ulp_half
  let ?s = "true_div W w"
  have s: "0 < ?s"
    using W(1) w by (rule true_div_bounds)
  have u: "0 \<le> (1 - ?u)\<^sup>2"
    by simp
  have "(of_int W :: rat) - 1 < of_int W - of_int W * (1 / 2 ^ 51)"
    using small_part [OF W] by simp
  also have "\<dots> = of_int W * (1 - 1 / 2 ^ 51)"
    by (simp add: algebra_simps)
  also have "\<dots> \<le> of_int W * (1 - ?u) ^ 3"
    using W(1) cube_down by (intro mult_left_mono) simp_all
  also have "\<dots> = (of_int W * (1 - ?u)) * (1 - ?u)\<^sup>2"
    by (simp add: power2_eq_square power3_eq_cube)
  also have "\<dots> \<le> (of_int w * ?s) * (1 - ?u)\<^sup>2"
    using true_div_bounds(3) [OF W(1) w] u by (rule mult_right_mono)
  also have "\<dots> \<le> int_times_float w ?s"
    using w s by (rule int_times_float_bounds)
  finally have "of_int (W - 1) \<le> int_times_float w ?s"
    by simp
  then have "W - 1 \<le> \<lfloor>int_times_float w ?s\<rfloor>"
    by (simp only: le_floor_iff)
  moreover have "0 < int_times_float w ?s"
    using w s by (rule int_times_float_bounds)
  ultimately show ?thesis
    by (simp add: py_int_def)
qed

lemma scaled_nonneg:
  assumes "0 < w" "0 < s"
  shows "0 \<le> py_int (int_times_float w s)"
  using int_times_float_bounds(1) [OF assms] by (simp add: py_int_def)

lemma centre_offset:
  fixes W n :: int
  assumes "0 \<le> n" "n \<le> W"
  shows "0 \<le> (W - n) div 2" and "(W - n) div 2 + n \<le> W"
    and "0 \<le> W - ((W - n) div 2 + n) - (W - n) div 2"
    and "W - ((W - n) div 2 + n) - (W - n) div 2 \<le> 1"
  using assms by simp_all

lemma try_body_draws:
  assumes nofail: "\<forall>tr c. \<not> fails d tr c" and dc: "printer_dc s"
    and dims: "img_width img \<noteq> 0" "img_height img \<noteq> 0"
    and rect: "fit_rect (horzres d) (vertres d) (img_width img) (img_height img) = (x0, y0, x1, y1)"
  shows "(Draw x0 y0 x1 y1, True) \<in> set (new_events s (snd (try_body d img pg s)))"
  using dc dims rect
  by (simp add: try_body_def then_do_def run_calls_nofail [OF nofail] new_events_def)

section \<open>Emission order\<close>

text \<open>
  C1. Whatever the order in which the converted pages reach \<open>print_worker\<close>, if the
  arrivals are a permutation of the pages \<open>1..n\<close> then the page numbers handed to
  \<open>_print_image_working\<close> are exactly \<open>1, 2, ..., n\<close>, in this order, whatever the
  device does.
\<close>

theorem print_worker_ascending:
  assumes "sort (map fst items) = [1 .. n]"
  shows "emitted (prn (print_worker d items p)) = emitted p @ [1 .. n]"
proof -
  have "fst ` set items = set (sort (map fst items))"
    by simp
  also have "\<dots> = {1 .. n}"
    by (simp only: assms set_upto)
  finally show ?thesis
    by (rule print_worker_all_pages)
qed

theorem print_worker_ascending_witness:
  "sort (map fst [(3, page_img), (1, page_img), (5, page_img), (2, page_img), (4, page_img)])
     = [1 .. 5] \<and>
   emitted (prn (print_worker dev_ok
      [(3, page_img), (1, page_img), (5, page_img), (2, page_img), (4, page_img)] fresh_printer))
     = [1, 2, 3, 4, 5]"
proof -
  have h: "sort (map fst [(3, page_img), (1, page_img), (5, page_img), (2, page_img),
             (4, page_img)]) = [1 .. 5]"
    by code_simp
  have e: "emitted fresh_printer @ [1 .. 5] = [1, 2, 3, 4, 5]"
    by code_simp
  from h print_worker_ascending [OF h, of dev_ok fresh_printer] e show ?thesis
    by simp
qed

text \<open>
  C4. A page number that was already emitted (it is below \<open>next_page\<close>) or that is
  already in the buffer does not invoke the emission routine when it is accepted again:
  the object, and with it the log of emitted pages, is unchanged, and \<open>next_page\<close> stays.
  For every sequence of accepts, no page number is handed to the emission routine twice.
\<close>

theorem duplicate_accept_no_emission:
  assumes "pg < next_page (print_worker d items p) \<or>
           pg \<in> fst ` set (buffer (print_worker d items p))"
  shows "prn (accept d (pg, img) (print_worker d items p)) = prn (print_worker d items p) \<and>
         next_page (accept d (pg, img) (print_worker d items p)) =
           next_page (print_worker d items p) \<and>
         distinct (drop (length (emitted p)) (emitted (prn (print_worker d items' p))))"
proof -
  have inv: "buf_inv p (fst ` set items) (print_worker d items p)"
    by (rule buf_inv_print_worker)
  from accept_stale [OF inv assms, of d img]
  have "prn (accept d (pg, img) (print_worker d items p)) = prn (print_worker d items p)"
    and "next_page (accept d (pg, img) (print_worker d items p)) =
           next_page (print_worker d items p)"
    by simp_all
  moreover have "buf_inv p (fst ` set items') (print_worker d items' p)"
    by (rule buf_inv_print_worker)
  then have "distinct (drop (length (emitted p)) (emitted (prn (print_worker d items' p))))"
    by (simp add: buf_inv_def)
  ultimately show ?thesis
    by simp
qed

theorem duplicate_accept_no_emission_witness:
  "(1 < next_page (print_worker dev_ok [(1, page_img)] fresh_printer) \<or>
    1 \<in> fst ` set (buffer (print_worker dev_ok [(1, page_img)] fresh_printer))) \<and>
   prn (accept dev_ok (1, page_img) (print_worker dev_ok [(1, page_img)] fresh_printer)) =
     prn (print_worker dev_ok [(1, page_img)] fresh_printer) \<and>
   next_page (accept dev_ok (1, page_img) (print_worker dev_ok [(1, page_img)] fresh_printer)) =
     next_page (print_worker dev_ok [(1, page_img)] fresh_printer) \<and>
   distinct (drop (length (emitted fresh_printer))
     (emitted (prn (print_worker dev_ok [(1, page_img), (1, page_img)] fresh_printer))))"
proof -
  have "next_page (print_worker dev_ok [(1, page_img)] fresh_printer) = 2"
    by (rule print_worker_stalls) auto
  then have h: "1 < next_page (print_worker dev_ok [(1, page_img)] fresh_printer) \<or>
      1 \<in> fst ` set (buffer (print_worker dev_ok [(1, page_img)] fresh_printer))"
    by simp
  from h duplicate_accept_no_emission [OF h] show ?thesis
    by blast
qed




section \<open>The coordinator\<close>












section \<open>Failure inside the emission routine\<close>




section \<open>The synchronous endpoint\<close>

text \<open>
  C10. A request to \<open>POST /print\<close> whose body names a file that exists is answered with
  status 500 and \<open>print_pdf\<close> is never called: the handler passes the keyword
  \<open>margin_mm\<close>, which is not a parameter of \<open>WorkingPDFPrinter.__init__\<close>, so the constructor
  raises \<open>TypeError\<close>. The constructor call of \<open>POST /print-async\<close> passes no such keyword
  and does not raise \<open>TypeError\<close>; that endpoint answers 200.
\<close>

theorem sync_print_always_500:
  assumes "map_of data ''file_path'' = Some fp" and "os_path_exists sys fp = Inr True"
  shows "route_print sys (Json (Some data)) = Some \<lparr>status = 500, printing = None\<rparr> \<and>
         WorkingPDFPrinter_init sys
           [(''printer_name'', dict_get data ''printer'' PNone),
            (''dpi'', dict_get data ''dpi'' (PInt 300)),
            (''threads'', dict_get data ''threads'' (PInt 4)),
            (''margin_mm'', dict_get data ''margin_mm'' (PInt 0))] = Inl TypeError \<and>
         async_construct sys data \<noteq> Inl TypeError \<and>
         fst (route_print_async sys (Json (Some data))) = 200"
proof -
  from assms(1) have ne: "data \<noteq> []"
    by auto
  with assms show ?thesis
    by (simp add: route_print_def route_print_async_def margin_rejected async_construct_def
        async_accepted)
qed

theorem sync_print_always_500_witness:
  "map_of [(''file_path'', PStr ''doc.pdf'')] ''file_path'' = Some (PStr ''doc.pdf'') \<and>
   os_path_exists sys_nodc (PStr ''doc.pdf'') = Inr True \<and>
   route_print sys_nodc (Json (Some [(''file_path'', PStr ''doc.pdf'')])) =
     Some \<lparr>status = 500, printing = None\<rparr> \<and>
   async_construct sys_nodc [(''file_path'', PStr ''doc.pdf'')] \<noteq> Inl TypeError"
proof -
  have h1: "map_of [(''file_path'', PStr ''doc.pdf'')] ''file_path'' = Some (PStr ''doc.pdf'')"
    by simp
  have h2: "os_path_exists sys_nodc (PStr ''doc.pdf'') = Inr True"
    by (simp add: os_path_exists_def sys_nodc_def)
  from h1 h2 sync_print_always_500 [OF h1 h2] show ?thesis
    by blast
qed

section \<open>Scaling and centring\<close>

text \<open>
  C9. For an image and a surface with positive sizes (the surface below \<open>2^31\<close> pixels each
  way, as \<open>GetDeviceCaps\<close> returns a C int), the routine draws into the rectangle
  \<open>(x, y, x + new_width, y + new_height)\<close> with \<open>scale = min(W / w, H / h)\<close>,
  \<open>new_width = int(w * scale)\<close>, \<open>new_height = int(h * scale)\<close>, \<open>x = (W - new_width) // 2\<close>
  and \<open>y = (H - new_height) // 2\<close>, in float arithmetic. The rectangle lies inside the
  surface; its margins left and right, and top and bottom, differ by at most one pixel; one
  of its sides is within one pixel of the surface's; and both sides are the image's sides
  times the one scale, up to the float rounding and the truncation to whole pixels.
\<close>

theorem scaled_and_centred:
  assumes img: "0 < img_width img" "0 < img_height img"
    and dev: "0 < horzres d" "horzres d < 2 ^ 31" "0 < vertres d" "vertres d < 2 ^ 31"
    and run: "\<forall>tr c. \<not> fails d tr c" "printer_dc s"
  shows "let scale = py_min (true_div (horzres d) (img_width img))
                       (true_div (vertres d) (img_height img));
             new_width = py_int (int_times_float (img_width img) scale);
             new_height = py_int (int_times_float (img_height img) scale);
             x = (horzres d - new_width) div 2;
             y = (vertres d - new_height) div 2
         in (Draw x y (x + new_width) (y + new_height), True)
              \<in> set (new_events s (snd (try_body d img pg s))) \<and>
            0 \<le> new_width \<and> 0 \<le> new_height \<and>
            0 \<le> x \<and> 0 \<le> y \<and> x + new_width \<le> horzres d \<and> y + new_height \<le> vertres d \<and>
            0 \<le> horzres d - (x + new_width) - x \<and> horzres d - (x + new_width) - x \<le> 1 \<and>
            0 \<le> vertres d - (y + new_height) - y \<and> vertres d - (y + new_height) - y \<le> 1 \<and>
            (horzres d - 1 \<le> new_width \<or> vertres d - 1 \<le> new_height) \<and>
            of_int new_width \<le> of_int (img_width img) * scale * (1 + 1 / 2 ^ 53)\<^sup>2 \<and>
            of_int (img_width img) * scale * (1 - 1 / 2 ^ 53)\<^sup>2 - 1 < of_int new_width \<and>
            of_int new_height \<le> of_int (img_height img) * scale * (1 + 1 / 2 ^ 53)\<^sup>2 \<and>
            of_int (img_height img) * scale * (1 - 1 / 2 ^ 53)\<^sup>2 - 1 < of_int new_height"
proof -
  let ?W = "horzres d" and ?H = "vertres d" and ?w = "img_width img" and ?h = "img_height img"
  define scale where "scale = py_min (true_div ?W ?w) (true_div ?H ?h)"
  define nw where "nw = py_int (int_times_float ?w scale)"
  define nh where "nh = py_int (int_times_float ?h scale)"
  define x where "x = (?W - nw) div 2"
  define y where "y = (?H - nh) div 2"
  have sW: "0 < true_div ?W ?w" and sH: "0 < true_div ?H ?h"
    using img dev by (simp_all add: true_div_bounds(1))
  then have s: "0 < scale" "scale \<le> true_div ?W ?w" "scale \<le> true_div ?H ?h"
    by (simp_all add: scale_def py_min_def)
  have which: "scale = true_div ?W ?w \<or> scale = true_div ?H ?h"
    by (simp add: scale_def py_min_def)
  have nw: "0 \<le> nw" "nw \<le> ?W"
    unfolding nw_def using img dev s by (simp_all add: scaled_nonneg scaled_upper)
  have nh: "0 \<le> nh" "nh \<le> ?H"
    unfolding nh_def using img dev s by (simp_all add: scaled_nonneg scaled_upper)
  have full: "?W - 1 \<le> nw \<or> ?H - 1 \<le> nh"
    using which scaled_lower [OF img(1) dev(1,2)] scaled_lower [OF img(2) dev(3,4)]
    by (auto simp: nw_def nh_def)
  have rect: "fit_rect ?W ?H ?w ?h = (x, y, x + nw, y + nh)"
    by (simp add: fit_rect_def Let_def scale_def nw_def nh_def x_def y_def)
  from img have nz: "?w \<noteq> 0" "?h \<noteq> 0"
    by simp_all
  have draw: "(Draw x y (x + nw) (y + nh), True) \<in> set (new_events s (snd (try_body d img pg s)))"
    using run nz rect by (rule try_body_draws)
  have pw: "0 < int_times_float ?w scale" and ph: "0 < int_times_float ?h scale"
    using img s(1) by (simp_all add: int_times_float_bounds(1))
  have aw: "of_int nw \<le> of_int ?w * scale * (1 + 1 / 2 ^ 53)\<^sup>2"
    "of_int ?w * scale * (1 - 1 / 2 ^ 53)\<^sup>2 - 1 < of_int nw"
  proof -
    have "of_int nw \<le> int_times_float ?w scale"
      using pw by (simp add: nw_def py_int_def)
    also have "\<dots> \<le> of_int ?w * scale * (1 + ulp_half)\<^sup>2"
      using img(1) s(1) by (rule int_times_float_bounds)
    finally show "of_int nw \<le> of_int ?w * scale * (1 + 1 / 2 ^ 53)\<^sup>2"
      by (simp add: ulp_half_def)
    have "of_int ?w * scale * (1 - ulp_half)\<^sup>2 \<le> int_times_float ?w scale"
      using img(1) s(1) by (rule int_times_float_bounds)
    also have "\<dots> < of_int nw + 1"
      using pw by (simp add: nw_def py_int_def) linarith
    finally show "of_int ?w * scale * (1 - 1 / 2 ^ 53)\<^sup>2 - 1 < of_int nw"
      by (simp add: ulp_half_def)
  qed
  have ah: "of_int nh \<le> of_int ?h * scale * (1 + 1 / 2 ^ 53)\<^sup>2"
    "of_int ?h * scale * (1 - 1 / 2 ^ 53)\<^sup>2 - 1 < of_int nh"
  proof -
    have "of_int nh \<le> int_times_float ?h scale"
      using ph by (simp add: nh_def py_int_def)
    also have "\<dots> \<le> of_int ?h * scale * (1 + ulp_half)\<^sup>2"
      using img(2) s(1) by (rule int_times_float_bounds)
    finally show "of_int nh \<le> of_int ?h * scale * (1 + 1 / 2 ^ 53)\<^sup>2"
      by (simp add: ulp_half_def)
    have "of_int ?h * scale * (1 - ulp_half)\<^sup>2 \<le> int_times_float ?h scale"
      using img(2) s(1) by (rule int_times_float_bounds)
    also have "\<dots> < of_int nh + 1"
      using ph by (simp add: nh_def py_int_def) linarith
    finally show "of_int ?h * scale * (1 - 1 / 2 ^ 53)\<^sup>2 - 1 < of_int nh"
      by (simp add: ulp_half_def)
  qed
  have "(Draw x y (x + nw) (y + nh), True) \<in> set (new_events s (snd (try_body d img pg s))) \<and>
      0 \<le> nw \<and> 0 \<le> nh \<and> 0 \<le> x \<and> 0 \<le> y \<and> x + nw \<le> ?W \<and> y + nh \<le> ?H \<and>
      0 \<le> ?W - (x + nw) - x \<and> ?W - (x + nw) - x \<le> 1 \<and>
      0 \<le> ?H - (y + nh) - y \<and> ?H - (y + nh) - y \<le> 1 \<and>
      (?W - 1 \<le> nw \<or> ?H - 1 \<le> nh) \<and>
      of_int nw \<le> of_int ?w * scale * (1 + 1 / 2 ^ 53)\<^sup>2 \<and>
      of_int ?w * scale * (1 - 1 / 2 ^ 53)\<^sup>2 - 1 < of_int nw \<and>
      of_int nh \<le> of_int ?h * scale * (1 + 1 / 2 ^ 53)\<^sup>2 \<and>
      of_int ?h * scale * (1 - 1 / 2 ^ 53)\<^sup>2 - 1 < of_int nh"
    using draw nw nh full aw ah centre_offset [OF nw] centre_offset [OF nh]
    unfolding x_def y_def by (intro conjI) simp_all
  then show ?thesis
    unfolding Let_def scale_def nw_def nh_def x_def y_def .
qed

theorem scaled_and_centred_witness:
  "0 < img_width page_img \<and> 0 < img_height page_img \<and>
   0 < horzres dev_ok \<and> horzres dev_ok < 2 ^ 31 \<and> 0 < vertres dev_ok \<and> vertres dev_ok < 2 ^ 31 \<and>
   (\<forall>tr c. \<not> fails dev_ok tr c) \<and> printer_dc (fresh_printer\<lparr>printer_dc := True\<rparr>) \<and>
   (Draw 0 0 4960 7016, True) \<in> set (new_events (fresh_printer\<lparr>printer_dc := True\<rparr>)
      (snd (try_body dev_ok page_img 2 (fresh_printer\<lparr>printer_dc := True\<rparr>))))"
proof -
  have h: "0 < img_width page_img" "0 < img_height page_img"
    "0 < horzres dev_ok" "horzres dev_ok < 2 ^ 31" "0 < vertres dev_ok" "vertres dev_ok < 2 ^ 31"
    "\<forall>tr c. \<not> fails dev_ok tr c" "printer_dc (fresh_printer\<lparr>printer_dc := True\<rparr>)"
    by (simp_all add: page_img_def dev_ok_def)
  have nw: "py_int (int_times_float (img_width page_img)
      (py_min (true_div (horzres dev_ok) (img_width page_img))
         (true_div (vertres dev_ok) (img_height page_img)))) = 4960"
    by code_simp
  have nh: "py_int (int_times_float (img_height page_img)
      (py_min (true_div (horzres dev_ok) (img_width page_img))
         (true_div (vertres dev_ok) (img_height page_img)))) = 7016"
    by code_simp
  have x: "(horzres dev_ok - 4960) div 2 = 0" and y: "(vertres dev_ok - 7016) div 2 = 0"
    by (simp_all add: dev_ok_def)
  from scaled_and_centred [OF h, of 2, unfolded Let_def nw nh x y]
  have "(Draw 0 0 4960 7016, True) \<in> set (new_events (fresh_printer\<lparr>printer_dc := True\<rparr>)
      (snd (try_body dev_ok page_img 2 (fresh_printer\<lparr>printer_dc := True\<rparr>))))"
    by simp
  with h show ?thesis
    by blast
qed

end
